theory Spec2Isabelle
  imports Complex_Main "HOL-Library.Log_Nat"
begin

section \<open>Strings\<close>

text \<open>
  File names and labels are byte strings in UTF-8. The separators the program looks for
  (\<open>.\<close>, \<open>:\<close>, \<open>/\<close>) are ASCII, and no byte of a multi-byte UTF-8 sequence is ASCII, so
  splitting the bytes splits exactly where Python splits the code points.
\<close>

text \<open>
  \<open>str.lower\<close>, on the ASCII letters. A character outside ASCII stays a character outside
  ASCII under Python's \<open>lower\<close> (the one exception, the Kelvin sign, becomes \<open>k\<close>, which
  occurs in no photo extension), so membership of a lower-cased extension in
  \<open>PHOTO_EXTENSIONS\<close> is the same for both.
\<close>

definition lower_chr :: "char \<Rightarrow> char" where
  "lower_chr c =
     (case map_of (zip ''ABCDEFGHIJKLMNOPQRSTUVWXYZ'' ''abcdefghijklmnopqrstuvwxyz'') c of
        Some d \<Rightarrow> d
      | None \<Rightarrow> c)"

definition lower :: "string \<Rightarrow> string" where
  "lower s = map lower_chr s"

text \<open>\<open>s.split(sep)\<close> for a separator of one character: never the empty list.\<close>

fun split :: "char \<Rightarrow> string \<Rightarrow> string list" where
  "split sep [] = [Nil]"
| "split sep (c # cs) =
     (if c = sep then [] # split sep cs
      else (c # hd (split sep cs)) # tl (split sep cs))"

text \<open>\<open>'.' in f\<close>\<close>

definition has_dot :: "string \<Rightarrow> bool" where
  "has_dot f = (CHR ''.'' \<in> set f)"

section \<open>Classification\<close>

text \<open>Line 16: the supported photo extensions.\<close>

definition PHOTO_EXTENSIONS :: "string set" where
  "PHOTO_EXTENSIONS = {''jpg'', ''jpeg'', ''png'', ''gif'', ''bmp'', ''tiff''}"

datatype mode = Photo | Default

text \<open>
  Lines 53 to 57:
  \<^verbatim>\<open>all(f.lower().split('.')[-1] in PHOTO_EXTENSIONS for f in files if '.' in f)\<close>.
  The generator filters the names with \<open>if '.' in f\<close> before \<open>all\<close> sees them.
\<close>

definition determine_mode :: "string list \<Rightarrow> mode" where
  "determine_mode files =
     (if list_all (\<lambda>f. last (split CHR ''.'' (lower f)) \<in> PHOTO_EXTENSIONS)
           (filter has_dot files)
      then Photo else Default)"

text \<open>
  Line 70, the label of a file without extension: the UTF-8 bytes of the Cyrillic literal
  of the source (thirteen letters and an underscore).
\<close>

definition no_extension_label :: string where
  "no_extension_label =
     [CHR 0xD0, CHR 0xB1, CHR 0xD0, CHR 0xB5, CHR 0xD0, CHR 0xB7, CHR ''_'',
      CHR 0xD1, CHR 0x80, CHR 0xD0, CHR 0xB0, CHR 0xD1, CHR 0x81, CHR 0xD1, CHR 0x88,
      CHR 0xD0, CHR 0xB8, CHR 0xD1, CHR 0x80, CHR 0xD0, CHR 0xB5, CHR 0xD0, CHR 0xBD,
      CHR 0xD0, CHR 0xB8, CHR 0xD1, CHR 0x8F]"

text \<open>
  Line 70: \<^verbatim>\<open>ext = filename.split('.')[-1] if '.' in filename else <label>\<close>.
  The name is split as it is: this line has no \<open>lower()\<close>.
\<close>

definition default_ext :: "string \<Rightarrow> string" where
  "default_ext filename =
     (if has_dot filename then last (split CHR ''.'' filename) else no_extension_label)"

section \<open>Paths\<close>

text \<open>\<open>os.path.join\<close> of two components and \<open>os.path.basename\<close>, as \<open>posixpath\<close> has them.\<close>

definition join :: "string \<Rightarrow> string \<Rightarrow> string" where
  "join a b =
     (if b \<noteq> [] \<and> hd b = CHR ''/'' then b
      else if a = [] \<or> last a = CHR ''/'' then a @ b
      else a @ ''/'' @ b)"

definition basename :: "string \<Rightarrow> string" where
  "basename p = last (split CHR ''/'' p)"

section \<open>The environment\<close>

text \<open>An exception, with the text that \<open>str(e)\<close> gives.\<close>

datatype exn = Exn string

fun msg :: "exn \<Rightarrow> string" where
  "msg (Exn s) = s"

text \<open>
  A value of the EXIF dictionary: a string, or a value on which \<open>value.split(":")\<close>
  raises (bytes, a number, a tuple), with the exception it raises.
\<close>

datatype exif_value = StrValue string | OtherValue exn

text \<open>
  What \<open>Image.open(filepath)\<close> and \<open>img._getexif()\<close> give: an exception, or the value
  of \<open>exif_data\<close> (\<open>None\<close>, or the dictionary as its items in order, keyed by tag number).
\<close>

datatype image_read = OpenRaises exn | Opened "(int \<times> exif_value) list option"

text \<open>
  The calls the program makes to the operating system and to the image library, over a
  state \<open>'w\<close> of the outside world. \<open>os.path.isfile\<close> and \<open>os.path.exists\<close> never raise;
  the other calls may. A call that changes the world returns the new world together with
  the exception it raised, if any. \<open>mtime_year\<close> is line 32 as a whole:
  \<^verbatim>\<open>datetime.fromtimestamp(os.path.getmtime(filepath)).strftime("%Y")\<close>.
\<close>

record 'w os =
  listdir :: "'w \<Rightarrow> string \<Rightarrow> exn + string list"
  isfile :: "'w \<Rightarrow> string \<Rightarrow> bool"
  exists :: "'w \<Rightarrow> string \<Rightarrow> bool"
  makedirs :: "'w \<Rightarrow> string \<Rightarrow> 'w \<times> exn option"
  move :: "'w \<Rightarrow> string \<Rightarrow> string \<Rightarrow> 'w \<times> exn option"
  open_exif :: "'w \<Rightarrow> string \<Rightarrow> image_read"
  mtime_year :: "'w \<Rightarrow> string \<Rightarrow> exn + string"

section \<open>The year of an image\<close>

text \<open>
  Lines 27 to 29. \<open>TAGS.get(tag, tag) == "DateTimeOriginal"\<close> holds for the tag 0x9003 and
  for no other key of an EXIF dictionary. The result is \<open>Inr (Some year)\<close> for a
  \<open>return\<close>, \<open>Inr None\<close> when the loop ends without one, \<open>Inl e\<close> for an exception.
\<close>

fun scan_items :: "(int \<times> exif_value) list \<Rightarrow> exn + string option" where
  "scan_items [] = Inr None"
| "scan_items ((tag, v) # rest) =
     (if tag = 0x9003 then
        (case v of
           StrValue s \<Rightarrow> Inr (Some (hd (split CHR '':'' s)))
         | OtherValue e \<Rightarrow> Inl e)
      else scan_items rest)"

text \<open>Lines 24 to 29, the body of the \<open>try\<close>.\<close>

definition try_exif :: "image_read \<Rightarrow> exn + string option" where
  "try_exif r =
     (case r of
        OpenRaises e \<Rightarrow> Inl e
      | Opened None \<Rightarrow> Inr None
      | Opened (Some items) \<Rightarrow> (if items = [] then Inr None else scan_items items))"

text \<open>
  Lines 23 to 32. \<open>except Exception: pass\<close> sends an exception of the \<open>try\<close> to line 32,
  which is outside the \<open>try\<close>: what it raises leaves the function.
\<close>

definition get_image_year :: "'w os \<Rightarrow> 'w \<Rightarrow> string \<Rightarrow> exn + string" where
  "get_image_year os w filepath =
     (case try_exif (open_exif os w filepath) of
        Inr (Some year) \<Rightarrow> Inr year
      | Inr None \<Rightarrow> mtime_year os w filepath
      | Inl e \<Rightarrow> mtime_year os w filepath)"

section \<open>Progress\<close>

text \<open>
  Line 81: \<^verbatim>\<open>int((processed / total) * 100)\<close>. The division of two \<open>int\<close>s and the
  product are binary64 operations, each the exact result rounded to the nearest
  number of 53 significant bits, ties to even. \<open>fl\<close> is that rounding, without a bound
  on the exponent: a quotient of two list lengths and its product with 100 are far from
  the overflow and underflow thresholds of binary64.
\<close>

definition pow2 :: "int \<Rightarrow> rat" where
  "pow2 e = (if 0 \<le> e then 2 ^ nat e else 1 / 2 ^ nat (- e))"

text \<open>The exponent \<open>e\<close> of a positive \<open>x\<close>: \<open>2^e \<le> x < 2^(e+1)\<close>.\<close>

definition binade :: "rat \<Rightarrow> int" where
  "binade x =
     (let d = bitlen (fst (quotient_of x)) - bitlen (snd (quotient_of x))
      in if pow2 d \<le> x then d else d - 1)"

definition round_half_even :: "rat \<Rightarrow> int" where
  "round_half_even q =
     (let f = \<lfloor>q\<rfloor>; r = q - of_int f
      in if r < 1 / 2 then f
         else if 1 / 2 < r then f + 1
         else if even f then f else f + 1)"

definition fl :: "rat \<Rightarrow> rat" where
  "fl x =
     (if x = 0 then 0
      else let u = pow2 (binade \<bar>x\<bar> - 52)
           in sgn x * of_int (round_half_even (\<bar>x\<bar> / u)) * u)"

text \<open>\<open>int(x)\<close> of a float: truncation towards zero.\<close>

definition trunc :: "rat \<Rightarrow> int" where
  "trunc x = (if 0 \<le> x then \<lfloor>x\<rfloor> else \<lceil>x\<rceil>)"

definition progress_of :: "nat \<Rightarrow> nat \<Rightarrow> int" where
  "progress_of processed total' =
     trunc (fl (fl (of_nat processed / of_nat total') * 100))"

section \<open>The worker\<close>

text \<open>
  The texts of \<open>log_update\<close>, one constructor for each literal of the source: lines 48,
  55, 58, 63, 74 (with \<open>target_dir\<close>), 77 (with \<open>filename\<close> and the base name of
  \<open>target_dir\<close>), 79 (with \<open>filename\<close> and \<open>str(e)\<close>) and 84.
\<close>

datatype log_msg =
    NoFiles
  | PhotoMode
  | DefaultMode
  | CancelledMsg
  | CreatedDir string
  | Moved string string
  | MoveError string string
  | Done

text \<open>The three signals of the worker: \<open>log_update\<close>, \<open>progress_update\<close>, \<open>finished_signal\<close>.\<close>

datatype event = Log log_msg | Progress int | Finished

record worker =
  folder :: string
  is_running :: bool

text \<open>Lines 39 to 42.\<close>

definition init :: "string \<Rightarrow> worker" where
  "init dir = \<lparr>folder = dir, is_running = True\<rparr>"

text \<open>Lines 87 and 88.\<close>

definition stop :: "worker \<Rightarrow> worker" where
  "stop wk = wk\<lparr>is_running := False\<rparr>"

text \<open>Line 68, the label before the year: the UTF-8 bytes of the ten Cyrillic letters.\<close>

definition photos_label :: string where
  "photos_label =
     [CHR 0xD0, CHR 0xA4, CHR 0xD0, CHR 0xBE, CHR 0xD1, CHR 0x82, CHR 0xD0, CHR 0xBE,
      CHR 0xD0, CHR 0xB3, CHR 0xD1, CHR 0x80, CHR 0xD0, CHR 0xB0, CHR 0xD1, CHR 0x84,
      CHR 0xD0, CHR 0xB8, CHR 0xD0, CHR 0xB8]"

text \<open>Lines 66 to 71: the name of the destination folder, before it is joined to the folder.\<close>

definition destination :: "'w os \<Rightarrow> 'w \<Rightarrow> string \<Rightarrow> mode \<Rightarrow> string \<Rightarrow> exn + string" where
  "destination os w dir m filename =
     (case m of
        Photo \<Rightarrow>
          (case get_image_year os w (join dir filename) of
             Inl e \<Rightarrow> Inl e
           | Inr year \<Rightarrow> Inr (photos_label @ '' '' @ year))
      | Default \<Rightarrow> Inr (default_ext filename))"

text \<open>Lines 72 to 74. \<open>os.makedirs\<close> is outside the \<open>try\<close>: its exception leaves \<open>run\<close>.\<close>

definition ensure_dir :: "'w os \<Rightarrow> 'w \<Rightarrow> string \<Rightarrow> event list \<times> 'w \<times> exn option" where
  "ensure_dir os w target_dir =
     (if exists os w target_dir then ([], w, None)
      else (case makedirs os w target_dir of
              (w1, None) \<Rightarrow> ([Log (CreatedDir target_dir)], w1, None)
            | (w1, Some e) \<Rightarrow> ([], w1, Some e)))"

text \<open>Lines 75 to 79: the move, and the log line of its success or of its failure.\<close>

definition move_file :: "'w os \<Rightarrow> 'w \<Rightarrow> string \<Rightarrow> string \<Rightarrow> string \<Rightarrow> event list \<times> 'w" where
  "move_file os w dir target_dir filename =
     (case move os w (join dir filename) (join target_dir filename) of
        (w2, None) \<Rightarrow> ([Log (Moved filename (basename target_dir))], w2)
      | (w2, Some e) \<Rightarrow> ([Log (MoveError filename (msg e))], w2))"

text \<open>
  Lines 65 to 82, one file: the events, the new world, and the exception that leaves
  \<open>run\<close>, if any. \<open>msleep\<close> of line 83 has no effect on the events.
\<close>

definition iteration ::
  "'w os \<Rightarrow> string \<Rightarrow> mode \<Rightarrow> nat \<Rightarrow> 'w \<Rightarrow> nat \<Rightarrow> string \<Rightarrow> event list \<times> 'w \<times> exn option" where
  "iteration os dir m total' w processed filename =
     (case destination os w dir m filename of
        Inl e \<Rightarrow> ([], w, Some e)
      | Inr name \<Rightarrow>
          (case ensure_dir os w (join dir name) of
             (evs, w1, Some e) \<Rightarrow> (evs, w1, Some e)
           | (evs, w1, None) \<Rightarrow>
               (case move_file os w1 dir (join dir name) filename of
                  (evs2, w2) \<Rightarrow>
                    (evs @ evs2 @ [Progress (progress_of (Suc processed) total')], w2, None))))"

text \<open>How the loop of line 61 ends.\<close>

datatype ending = Exhausted | Broke | Escaped exn

record 'w loop_result =
  loop_events :: "event list"
  loop_world :: 'w
  loop_processed :: nat
  loop_ending :: ending

text \<open>
  Lines 61 to 83. Another thread may call \<open>stop\<close> at any time; \<open>stop_called i\<close> says that
  it has done so when the loop tests the flag with \<open>i\<close> files processed.
\<close>

fun loop ::
  "'w os \<Rightarrow> (nat \<Rightarrow> bool) \<Rightarrow> mode \<Rightarrow> nat \<Rightarrow> worker \<Rightarrow> 'w \<Rightarrow> nat \<Rightarrow> string list \<Rightarrow> 'w loop_result" where
  "loop os stop_called m total' wk w processed [] =
     \<lparr>loop_events = [], loop_world = w, loop_processed = processed, loop_ending = Exhausted\<rparr>"
| "loop os stop_called m total' wk w processed (filename # rest) =
     (let wk1 = (if stop_called processed then stop wk else wk) in
      if \<not> is_running wk1 then
        \<lparr>loop_events = [Log CancelledMsg], loop_world = w, loop_processed = processed,
         loop_ending = Broke\<rparr>
      else
        (case iteration os (folder wk1) m total' w processed filename of
           (evs, w1, Some e) \<Rightarrow>
             \<lparr>loop_events = evs, loop_world = w1, loop_processed = processed,
              loop_ending = Escaped e\<rparr>
         | (evs, w1, None) \<Rightarrow>
             (let r = loop os stop_called m total' wk1 w1 (Suc processed) rest
              in r\<lparr>loop_events := evs @ loop_events r\<rparr>)))"

datatype outcome = ZeroFiles | Completed | Cancelled | Crashed exn

record 'w run_result =
  events :: "event list"
  world :: 'w
  processed_count :: nat
  outcome :: outcome

text \<open>Lines 44 to 85.\<close>

definition run :: "'w os \<Rightarrow> (nat \<Rightarrow> bool) \<Rightarrow> worker \<Rightarrow> 'w \<Rightarrow> 'w run_result" where
  "run os stop_called wk w =
     (case listdir os w (folder wk) of
        Inl e \<Rightarrow> \<lparr>events = [], world = w, processed_count = 0, outcome = Crashed e\<rparr>
      | Inr names \<Rightarrow>
          (let files = filter (\<lambda>f. isfile os w (join (folder wk) f)) names;
               total' = length files
           in if total' = 0 then
                \<lparr>events = [Log NoFiles, Finished], world = w, processed_count = 0,
                 outcome = ZeroFiles\<rparr>
              else
                (let m = determine_mode files;
                     start = [Log (case m of Photo \<Rightarrow> PhotoMode | Default \<Rightarrow> DefaultMode)];
                     r = loop os stop_called m total' wk w 0 files
                 in case loop_ending r of
                      Escaped e \<Rightarrow>
                        \<lparr>events = start @ loop_events r, world = loop_world r,
                         processed_count = loop_processed r, outcome = Crashed e\<rparr>
                    | Broke \<Rightarrow>
                        \<lparr>events = start @ loop_events r @ [Log Done, Finished],
                         world = loop_world r, processed_count = loop_processed r,
                         outcome = Cancelled\<rparr>
                    | Exhausted \<Rightarrow>
                        \<lparr>events = start @ loop_events r @ [Log Done, Finished],
                         world = loop_world r, processed_count = loop_processed r,
                         outcome = Completed\<rparr>)))"

section \<open>What a run shows\<close>

text \<open>The values of \<open>progress_update\<close> among the events, in order.\<close>

fun progress_values :: "event list \<Rightarrow> int list" where
  "progress_values [] = []"
| "progress_values (Progress p # evs) = p # progress_values evs"
| "progress_values (Log l # evs) = progress_values evs"
| "progress_values (Finished # evs) = progress_values evs"

text \<open>How many times \<open>finished_signal\<close> fires.\<close>

fun finished_count :: "event list \<Rightarrow> nat" where
  "finished_count [] = 0"
| "finished_count (Finished # evs) = Suc (finished_count evs)"
| "finished_count (Log l # evs) = finished_count evs"
| "finished_count (Progress p # evs) = finished_count evs"

text \<open>
  The names of the files for which the move has been tried (line 77 or line 79 has
  logged it), of those that were moved (line 77) and of those whose move failed
  (line 79), in order.
\<close>

fun handled_names :: "event list \<Rightarrow> string list" where
  "handled_names [] = []"
| "handled_names (Log (Moved f d) # evs) = f # handled_names evs"
| "handled_names (Log (MoveError f r) # evs) = f # handled_names evs"
| "handled_names (ev # evs) = handled_names evs"

fun moved_names :: "event list \<Rightarrow> string list" where
  "moved_names [] = []"
| "moved_names (Log (Moved f d) # evs) = f # moved_names evs"
| "moved_names (ev # evs) = moved_names evs"

fun failed_names :: "event list \<Rightarrow> string list" where
  "failed_names [] = []"
| "failed_names (Log (MoveError f r) # evs) = f # failed_names evs"
| "failed_names (ev # evs) = failed_names evs"

section \<open>A small world\<close>

text \<open>
  An environment to run the worker on concrete folders: the names of the regular files
  of the folder in the order of the listing, and the paths of the directories. The
  images, the modification years and the files whose move fails are given by name.
  \<open>makedirs\<close> adds the path; a move that does not fail takes the file out of the folder.
\<close>

record sim =
  top :: "string list"
  dirs :: "string list"

definition sim_os ::
  "(string \<Rightarrow> image_read) \<Rightarrow> (string \<Rightarrow> exn + string) \<Rightarrow> (string \<Rightarrow> exn option) \<Rightarrow> sim os" where
  "sim_os images years faults =
     \<lparr>listdir = (\<lambda>w d. Inr (top w @ map basename (dirs w))),
      isfile = (\<lambda>w p. basename p \<in> set (top w)),
      exists = (\<lambda>w p. p \<in> set (dirs w)),
      makedirs = (\<lambda>w p. (w\<lparr>dirs := dirs w @ [p]\<rparr>, None)),
      move = (\<lambda>w src dst.
        case faults (basename src) of
          Some e \<Rightarrow> (w, Some e)
        | None \<Rightarrow> (w\<lparr>top := removeAll (basename src) (top w)\<rparr>, None)),
      open_exif = (\<lambda>w p. images (basename p)),
      mtime_year = (\<lambda>w p. years (basename p))\<rparr>"

text \<open>
  Folders of the small world. The images: \<open>a.jpg\<close> carries the capture date
  \<open>2020:03:01 10:00:00\<close>, \<open>b.jpg\<close> has no EXIF data, \<open>c.jpg\<close> cannot be opened,
  \<open>d.jpg\<close> carries a capture date written with dashes, \<open>e.jpg\<close> carries a capture date
  that is not a string. Every file was last modified in 2021.
\<close>

definition images :: "string \<Rightarrow> image_read" where
  "images n =
     (if n = ''a.jpg'' then Opened (Some [(0x010F, StrValue ''Camera''), (0x9003, StrValue ''2020:03:01 10:00:00'')])
      else if n = ''c.jpg'' then OpenRaises (Exn ''cannot identify image file'')
      else if n = ''d.jpg'' then Opened (Some [(0x9003, StrValue ''2020-03-01 10:00:00'')])
      else if n = ''e.jpg'' then Opened (Some [(0x9003, OtherValue (Exn ''a bytes-like object is required''))])
      else Opened None)"

definition years :: "string \<Rightarrow> exn + string" where
  "years n = Inr ''2021''"

definition no_faults :: "string \<Rightarrow> exn option" where
  "no_faults n = None"

text \<open>The move of \<open>a.txt\<close> fails.\<close>

definition locked :: "string \<Rightarrow> exn option" where
  "locked n = (if n = ''a.txt'' then Some (Exn ''Permission denied'') else None)"

definition photo_folder :: sim where
  "photo_folder = \<lparr>top = [''a.jpg'', ''b.jpg''], dirs = []\<rparr>"

definition text_folder :: sim where
  "text_folder = \<lparr>top = [''a.txt'', ''b.txt'', ''c.txt''], dirs = []\<rparr>"

text \<open>
  Two environments over the small world, one where no move fails and one where the move
  of \<open>a.txt\<close> fails, and two schedules of \<open>stop\<close>: never, and after the first file.
\<close>

definition photo_os :: "sim os" where
  "photo_os = sim_os images years no_faults"

definition locked_os :: "sim os" where
  "locked_os = sim_os images years locked"

definition never :: "nat \<Rightarrow> bool" where
  "never i = False"

definition after_one :: "nat \<Rightarrow> bool" where
  "after_one i = (1 \<le> i)"

text \<open>
  More of the small world: a folder of two files with the extensions \<open>a\<close> and \<open>b\<close>, and
  an environment where \<open>makedirs\<close> raises for the folder \<open>b\<close>; a folder that holds the
  image that cannot be opened, and an environment where line 32 raises for every file
  (a modification time beyond the years that \<open>datetime\<close> handles); a folder that holds
  nothing but the directory \<open>txt\<close>.
\<close>

definition mixed_folder :: sim where
  "mixed_folder = \<lparr>top = [''x.a'', ''y.b''], dirs = []\<rparr>"

definition broken_os :: "sim os" where
  "broken_os =
     photo_os\<lparr>makedirs := (\<lambda>w p.
        if p = ''/d/b'' then (w, Some (Exn ''denied'')) else (w\<lparr>dirs := dirs w @ [p]\<rparr>, None))\<rparr>"

definition corrupt_folder :: sim where
  "corrupt_folder = \<lparr>top = [''c.jpg''], dirs = []\<rparr>"


definition late_years :: "string \<Rightarrow> exn + string" where
  "late_years n = Inl (Exn ''year out of range'')"

definition late_os :: "sim os" where
  "late_os = sim_os images late_years no_faults"

section \<open>Facts about strings\<close>

lemma split_not_Nil: "split sep s \<noteq> []"
  by (induction s) simp_all

lemma split_no_sep: "sep \<notin> set s \<Longrightarrow> split sep s = [s]"
  by (induction s) auto

lemma split_sep_tl: "sep \<in> set s \<Longrightarrow> tl (split sep s) \<noteq> []"
  by (induction s) (auto simp: split_not_Nil)

lemma last_split: "last (split sep s) = rev (takeWhile (\<lambda>c. c \<noteq> sep) (rev s))"
proof (induction s)
  case Nil
  show ?case by simp
next
  case (Cons c cs)
  show ?case
  proof (cases "c = sep")
    case True
    then show ?thesis
      using Cons.IH by (simp add: split_not_Nil takeWhile_append)
  next
    case False
    show ?thesis
    proof (cases "sep \<in> set cs")
      case True
      then have "tl (split sep cs) \<noteq> []" by (rule split_sep_tl)
      then have "last (split sep (c # cs)) = last (split sep cs)"
        using False by (simp add: last_tl split_not_Nil)
      moreover have "takeWhile (\<lambda>c. c \<noteq> sep) (rev cs @ [c]) = takeWhile (\<lambda>c. c \<noteq> sep) (rev cs)"
        using True by (auto simp: takeWhile_append)
      ultimately show ?thesis using Cons.IH by simp
    next
      case no: False
      then show ?thesis
        using False by (simp add: split_no_sep takeWhile_append)
    qed
  qed
qed

lemma hd_split: "hd (split sep s) = takeWhile (\<lambda>c. c \<noteq> sep) s"
  by (induction s) simp_all

section \<open>Facts about the rounding\<close>

lemma pow2_powi: "pow2 e = 2 powi e"
  by (simp add: pow2_def power_int_def power_one_over)

lemma pow2_pos: "0 < pow2 e"
  by (simp add: pow2_powi)

lemma pow2_add: "pow2 (a + b) = pow2 a * pow2 b"
  by (simp add: pow2_powi power_int_add)

lemma pow2_mono: "a \<le> b \<Longrightarrow> pow2 a \<le> pow2 b"
  by (simp add: pow2_powi power_int_increasing)

lemma pow2_strict_mono: "a < b \<Longrightarrow> pow2 a < pow2 b"
  by (simp add: pow2_powi power_int_strict_increasing)

lemma pow2_nat: "0 \<le> e \<Longrightarrow> pow2 e = 2 ^ nat e"
  by (simp add: pow2_def)

lemma bitlen_rat_bounds:
  assumes "0 < (a::int)"
  shows "pow2 (bitlen a - 1) \<le> of_int a" and "of_int a < pow2 (bitlen a)"
proof -
  from assms have b: "2 ^ nat (bitlen a - 1) \<le> a" "a < 2 ^ nat (bitlen a)"
    using bitlen_bounds[of a] by simp_all
  from assms have "1 \<le> bitlen a"
    using bitlen_eq_zero_iff[of a] bitlen_nonneg[of a] by linarith
  then have p: "pow2 (bitlen a - 1) = 2 ^ nat (bitlen a - 1)" "pow2 (bitlen a) = 2 ^ nat (bitlen a)"
    by (simp_all add: pow2_nat)
  have "(of_int (2 ^ nat (bitlen a - 1)) :: rat) \<le> of_int a"
    using b(1) by (simp only: of_int_le_iff)
  then show "pow2 (bitlen a - 1) \<le> of_int a" by (simp add: p)
  have "(of_int a :: rat) < of_int (2 ^ nat (bitlen a))"
    using b(2) by (simp only: of_int_less_iff)
  then show "of_int a < pow2 (bitlen a)" by (simp add: p)
qed

lemma binade_bounds:
  assumes "0 < x"
  shows "pow2 (binade x) \<le> x \<and> x < pow2 (binade x + 1)"
proof -
  obtain a b where q: "quotient_of x = (a, b)" by (cases "quotient_of x")
  then have b: "0 < b" by (rule quotient_of_denom_pos)
  from q have x: "x = of_int a / of_int b" by (rule quotient_of_div)
  with assms b have a: "0 < a" by (simp add: zero_less_divide_iff)
  define d where "d = bitlen a - bitlen b"
  note A = bitlen_rat_bounds[OF a] and B = bitlen_rat_bounds[OF b]
  have bpos: "(0::rat) < of_int b" using b by simp
  have up: "x < pow2 (d + 1)"
  proof -
    have "of_int a < pow2 (d + 1) * pow2 (bitlen b - 1)"
      using A(2) by (simp add: pow2_add[symmetric] d_def)
    also have "\<dots> \<le> pow2 (d + 1) * of_int b"
      using B(1) pow2_pos[of "d + 1"] by (simp add: mult_left_mono)
    finally show ?thesis using bpos by (simp add: x pos_divide_less_eq)
  qed
  have lo: "pow2 (d - 1) < x"
  proof -
    have "pow2 (d - 1) * of_int b < pow2 (d - 1) * pow2 (bitlen b)"
      using B(2) pow2_pos[of "d - 1"] by (simp add: mult_strict_left_mono)
    also have "\<dots> = pow2 (bitlen a - 1)"
      by (simp add: pow2_add[symmetric] d_def)
    also have "\<dots> \<le> of_int a" by (rule A(1))
    finally show ?thesis using bpos by (simp add: x pos_less_divide_eq)
  qed
  have bin: "binade x = (if pow2 d \<le> x then d else d - 1)"
    by (simp add: binade_def q d_def Let_def)
  show ?thesis
  proof (cases "pow2 d \<le> x")
    case True
    then show ?thesis using up by (simp add: bin)
  next
    case False
    then show ?thesis using lo by (simp add: bin)
  qed
qed

lemma binade_unique:
  assumes "pow2 e \<le> x" "x < pow2 (e + 1)"
  shows "binade x = e"
proof -
  have "0 < x" using pow2_pos[of e] assms(1) by linarith
  from binade_bounds[OF this] have b: "pow2 (binade x) \<le> x" "x < pow2 (binade x + 1)" by simp_all
  have "\<not> binade x < e"
  proof
    assume "binade x < e"
    then have "pow2 (binade x + 1) \<le> pow2 e" by (simp add: pow2_mono)
    with b(2) assms(1) show False by linarith
  qed
  moreover have "\<not> e < binade x"
  proof
    assume "e < binade x"
    then have "pow2 (e + 1) \<le> pow2 (binade x)" by (simp add: pow2_mono)
    with b(1) assms(2) show False by linarith
  qed
  ultimately show ?thesis by linarith
qed

lemma binade_mono:
  assumes "0 < x" "x \<le> y"
  shows "binade x \<le> binade y"
proof (rule ccontr)
  assume "\<not> binade x \<le> binade y"
  then have "binade y + 1 \<le> binade x" by simp
  then have "pow2 (binade y + 1) \<le> pow2 (binade x)" by (rule pow2_mono)
  moreover have "0 < y" using assms by linarith
  ultimately show False
    using binade_bounds[OF assms(1)] binade_bounds[OF \<open>0 < y\<close>] assms(2) by linarith
qed

lemma rhe_lower: "of_int m \<le> q \<Longrightarrow> m \<le> round_half_even q"
proof -
  assume "of_int m \<le> q"
  then have "m \<le> \<lfloor>q\<rfloor>" by (simp add: le_floor_iff)
  then show ?thesis by (simp add: round_half_even_def Let_def)
qed

lemma rhe_upper: "q \<le> of_int m \<Longrightarrow> round_half_even q \<le> m"
proof -
  assume a: "q \<le> of_int m"
  show ?thesis
  proof (cases "q = of_int m")
    case True
    then show ?thesis by (simp add: round_half_even_def Let_def)
  next
    case False
    with a have "q < of_int m" by simp
    then have "\<lfloor>q\<rfloor> < m" by (simp add: floor_less_iff)
    then show ?thesis by (simp add: round_half_even_def Let_def)
  qed
qed

lemma rhe_mono:
  assumes "q \<le> q'"
  shows "round_half_even q \<le> round_half_even q'"
proof (cases "\<lfloor>q\<rfloor> = \<lfloor>q'\<rfloor>")
  case True
  with assms have "q - of_int \<lfloor>q\<rfloor> \<le> q' - of_int \<lfloor>q'\<rfloor>" by simp
  then show ?thesis using True
    by (auto simp: round_half_even_def Let_def)
next
  case False
  with assms have lt: "\<lfloor>q\<rfloor> < \<lfloor>q'\<rfloor>" using floor_mono[OF assms] by linarith
  have "round_half_even q \<le> \<lfloor>q\<rfloor> + 1" by (simp add: round_half_even_def Let_def)
  also have "\<dots> \<le> \<lfloor>q'\<rfloor>" using lt by simp
  also have "\<dots> \<le> round_half_even q'" by (simp add: round_half_even_def Let_def)
  finally show ?thesis .
qed


lemma fl_zero: "fl 0 = 0"
  by (simp add: fl_def)

lemma fl_pos_eq:
  "0 < x \<Longrightarrow> fl x = of_int (round_half_even (x / pow2 (binade x - 52))) * pow2 (binade x - 52)"
  by (simp add: fl_def Let_def)

lemma pow2_52: "pow2 52 = of_int (2 ^ 52)" and pow2_53: "pow2 53 = of_int (2 ^ 53)"
  by (simp_all add: pow2_def)

lemma fl_bounds:
  assumes "0 < x"
  shows "pow2 (binade x) \<le> fl x" and "fl x \<le> pow2 (binade x + 1)"
proof -
  define e where "e = binade x"
  define u where "u = pow2 (e - 52)"
  have u: "0 < u" by (simp add: u_def pow2_pos)
  have b: "pow2 e \<le> x" "x < pow2 (e + 1)"
    using binade_bounds[OF assms] by (simp_all add: e_def)
  have lo_eq: "pow2 e = of_int (2 ^ 52) * u"
    using pow2_add[of 52 "e - 52"] by (simp add: u_def pow2_52)
  have hi_eq: "pow2 (e + 1) = of_int (2 ^ 53) * u"
    using pow2_add[of 53 "e - 52"] by (simp add: u_def pow2_53 add.commute)
  have "of_int (2 ^ 52) \<le> x / u"
    using b(1) u by (simp only: lo_eq pos_le_divide_eq)
  then have lo: "2 ^ 52 \<le> round_half_even (x / u)" by (rule rhe_lower)
  have "x / u \<le> of_int (2 ^ 53)"
    using b(2) u by (simp only: hi_eq pos_divide_le_eq less_imp_le)
  then have hi: "round_half_even (x / u) \<le> 2 ^ 53" by (rule rhe_upper)
  have f: "fl x = of_int (round_half_even (x / u)) * u"
    using assms by (simp add: fl_pos_eq u_def e_def)
  have "of_int (2 ^ 52) * u \<le> of_int (round_half_even (x / u)) * u"
    using lo u by (simp only: mult_le_cancel_right_pos of_int_le_iff)
  then show "pow2 (binade x) \<le> fl x" by (simp only: f lo_eq[symmetric] e_def)
  have "of_int (round_half_even (x / u)) * u \<le> of_int (2 ^ 53) * u"
    using hi u by (simp only: mult_le_cancel_right_pos of_int_le_iff)
  then show "fl x \<le> pow2 (binade x + 1)" by (simp only: f hi_eq[symmetric] e_def)
qed

lemma fl_mono_pos:
  assumes "0 < x" "x \<le> y"
  shows "fl x \<le> fl y"
proof -
  have y: "0 < y" using assms by linarith
  have le: "binade x \<le> binade y" using assms by (rule binade_mono)
  show ?thesis
  proof (cases "binade x = binade y")
    case True
    define u where "u = pow2 (binade y - 52)"
    have u: "0 < u" by (simp add: u_def pow2_pos)
    have "x / u \<le> y / u" using assms(2) u by (simp add: divide_right_mono)
    then have "round_half_even (x / u) \<le> round_half_even (y / u)" by (rule rhe_mono)
    then have "of_int (round_half_even (x / u)) * u \<le> of_int (round_half_even (y / u)) * u"
      using u by (simp only: mult_le_cancel_right_pos of_int_le_iff)
    then show ?thesis
      using assms(1) y True by (simp add: fl_pos_eq u_def)
  next
    case False
    with le have "binade x + 1 \<le> binade y" by simp
    then have "pow2 (binade x + 1) \<le> pow2 (binade y)" by (rule pow2_mono)
    with fl_bounds(2)[OF assms(1)] fl_bounds(1)[OF y] show ?thesis by linarith
  qed
qed

lemma fl_nonneg: "0 \<le> x \<Longrightarrow> 0 \<le> fl x"
proof (cases "x = 0")
  case True
  then show ?thesis by (simp add: fl_zero)
next
  case False
  assume "0 \<le> x"
  with False have x: "0 < x" by simp
  show ?thesis using fl_bounds(1)[OF x] pow2_pos[of "binade x"] by linarith
qed

lemma fl_mono: "0 \<le> x \<Longrightarrow> x \<le> y \<Longrightarrow> fl x \<le> fl y"
proof (cases "x = 0")
  case True
  assume "0 \<le> x" "x \<le> y"
  then show ?thesis using True fl_nonneg[of y] by (simp add: fl_zero)
next
  case False
  assume "0 \<le> x" "x \<le> y"
  with False show ?thesis by (simp add: fl_mono_pos)
qed

lemma fl_one: "fl 1 = 1"
  by code_simp

lemma fl_hundred: "fl 100 = 100"
  by code_simp

lemma trunc_nonneg: "0 \<le> x \<Longrightarrow> trunc x = \<lfloor>x\<rfloor>"
  by (simp add: trunc_def)

lemma progress_of_mono:
  assumes "i \<le> j"
  shows "progress_of i n \<le> progress_of j n"
proof -
  have q: "(0::rat) \<le> of_nat i / of_nat n" "(of_nat i :: rat) / of_nat n \<le> of_nat j / of_nat n"
    using assms by (simp_all add: divide_right_mono)
  have a: "0 \<le> fl (of_nat i / of_nat n)" using q(1) by (rule fl_nonneg)
  have "fl (of_nat i / of_nat n) \<le> fl (of_nat j / of_nat n)" using q by (rule fl_mono)
  then have m: "fl (of_nat i / of_nat n) * 100 \<le> fl (of_nat j / of_nat n) * 100" by simp
  have z: "0 \<le> fl (of_nat i / of_nat n) * 100" using a by simp
  have f: "fl (fl (of_nat i / of_nat n) * 100) \<le> fl (fl (of_nat j / of_nat n) * 100)"
    using z m by (rule fl_mono)
  have "0 \<le> fl (fl (of_nat i / of_nat n) * 100)" using z by (rule fl_nonneg)
  with f show ?thesis
    by (simp add: progress_of_def trunc_nonneg floor_mono)
qed

lemma progress_of_zero: "progress_of 0 n = 0"
  by (simp add: progress_of_def fl_zero trunc_def)

lemma progress_of_full: "0 < n \<Longrightarrow> progress_of n n = 100"
  by (simp add: progress_of_def fl_one fl_hundred trunc_def)

lemma progress_of_nonneg: "0 \<le> progress_of i n"
  using progress_of_mono[of 0 i n] by (simp add: progress_of_zero)

lemma progress_of_le_100: "i \<le> n \<Longrightarrow> 0 < n \<Longrightarrow> progress_of i n \<le> 100"
  using progress_of_mono[of i n n] by (simp add: progress_of_full)

section \<open>Facts about the year of an image\<close>

lemma scan_items_map_of:
  "scan_items items =
     (case map_of items 0x9003 of
        None \<Rightarrow> Inr None
      | Some (StrValue s) \<Rightarrow> Inr (Some (takeWhile (\<lambda>c. c \<noteq> CHR '':'') s))
      | Some (OtherValue e) \<Rightarrow> Inl e)"
  by (induction items rule: scan_items.induct) (simp_all add: hd_split split: exif_value.splits)

lemma try_exif_field:
  "open_exif os w p = Opened (Some items) \<Longrightarrow> map_of items 0x9003 = Some (StrValue v) \<Longrightarrow>
   try_exif (open_exif os w p) = Inr (Some (takeWhile (\<lambda>c. c \<noteq> CHR '':'') v))"
  by (auto simp: try_exif_def scan_items_map_of)

lemma get_image_year_eq:
  "get_image_year os w p =
     (case (case open_exif os w p of Opened (Some items) \<Rightarrow> map_of items 0x9003 | _ \<Rightarrow> None) of
        Some (StrValue v) \<Rightarrow> Inr (takeWhile (\<lambda>c. c \<noteq> CHR '':'') v)
      | _ \<Rightarrow> mtime_year os w p)"
  by (auto simp: get_image_year_def try_exif_def scan_items_map_of
      split: image_read.splits option.splits exif_value.splits)

lemma takeWhile_year: "CHR '':'' \<notin> set y4 \<Longrightarrow> takeWhile (\<lambda>c. c \<noteq> CHR '':'') (y4 @ '':'' @ rest) = y4"
  by (induction y4) auto

lemma photo_destination_eq:
  "destination os w dir Photo f =
     (case (case open_exif os w (join dir f) of Opened (Some items) \<Rightarrow> map_of items 0x9003 | _ \<Rightarrow> None) of
        Some (StrValue v) \<Rightarrow> Inr (photos_label @ '' '' @ takeWhile (\<lambda>c. c \<noteq> CHR '':'') v)
      | _ \<Rightarrow> (case mtime_year os w (join dir f) of
                Inl e \<Rightarrow> Inl e
              | Inr y \<Rightarrow> Inr (photos_label @ '' '' @ y)))"
  by (auto simp: destination_def get_image_year_eq
      split: image_read.splits option.splits exif_value.splits sum.splits)

section \<open>Facts about the loop\<close>

lemma progress_values_append: "progress_values (a @ b) = progress_values a @ progress_values b"
  by (induction a rule: progress_values.induct) simp_all

lemma finished_count_append: "finished_count (a @ b) = finished_count a + finished_count b"
  by (induction a rule: finished_count.induct) simp_all

lemma handled_names_append: "handled_names (a @ b) = handled_names a @ handled_names b"
  by (induction a rule: handled_names.induct) simp_all

lemma moved_names_append: "moved_names (a @ b) = moved_names a @ moved_names b"
  by (induction a rule: moved_names.induct) simp_all

lemma failed_names_append: "failed_names (a @ b) = failed_names a @ failed_names b"
  by (induction a rule: failed_names.induct) simp_all

lemma ensure_dir_obs:
  assumes "ensure_dir os w t = (evs, w1, x)"
  shows "progress_values evs = []" "finished_count evs = 0" "handled_names evs = []"
    "moved_names evs = []" "failed_names evs = []"
  using assms by (auto simp: ensure_dir_def split: if_splits prod.splits option.splits)

lemma move_file_obs:
  assumes "move_file os w d t f = (evs, w2)"
  shows "progress_values evs = []" "finished_count evs = 0" "handled_names evs = [f]"
  using assms by (auto simp: move_file_def split: prod.splits option.splits)

lemma iteration_obs:
  assumes "iteration os d m n w p f = (evs, w1, None)"
  shows "progress_values evs = [progress_of (Suc p) n]" "finished_count evs = 0"
    "handled_names evs = [f]"
  using assms
  by (auto simp: iteration_def progress_values_append finished_count_append handled_names_append
      ensure_dir_obs move_file_obs split: sum.splits prod.splits option.splits)

lemma iteration_escape_obs:
  assumes "iteration os d m n w p f = (evs, w1, Some e)"
  shows "progress_values evs = []" "finished_count evs = 0" "handled_names evs = []"
  using assms
  by (auto simp: iteration_def ensure_dir_obs split: sum.splits prod.splits option.splits)

lemma loop_Cons_cancel:
  "sc p \<or> \<not> is_running wk \<Longrightarrow>
   loop os sc m n wk w p (f # rest) =
     \<lparr>loop_events = [Log CancelledMsg], loop_world = w, loop_processed = p, loop_ending = Broke\<rparr>"
  by (auto simp: Let_def stop_def)

lemma loop_Cons_escape:
  "is_running wk \<Longrightarrow> \<not> sc p \<Longrightarrow>
   iteration os (folder wk) m n w p f = (evs, w1, Some e) \<Longrightarrow>
   loop os sc m n wk w p (f # rest) =
     \<lparr>loop_events = evs, loop_world = w1, loop_processed = p, loop_ending = Escaped e\<rparr>"
  by (simp add: Let_def)

lemma loop_Cons_step:
  "is_running wk \<Longrightarrow> \<not> sc p \<Longrightarrow>
   iteration os (folder wk) m n w p f = (evs, w1, None) \<Longrightarrow>
   loop os sc m n wk w p (f # rest) =
     (loop os sc m n wk w1 (Suc p) rest)
       \<lparr>loop_events := evs @ loop_events (loop os sc m n wk w1 (Suc p) rest)\<rparr>"
  by (simp add: Let_def)

declare loop.simps(2) [simp del]

lemma loop_cases:
  fixes os :: "'w os" and w :: 'w
  obtains
    (cancel) "sc p \<or> \<not> is_running wk"
      "loop os sc m n wk w p (f # rest) =
         \<lparr>loop_events = [Log CancelledMsg], loop_world = w, loop_processed = p, loop_ending = Broke\<rparr>"
  | (escape) evs w1 e where "is_running wk" "\<not> sc p"
      "iteration os (folder wk) m n w p f = (evs, w1, Some e)"
      "loop os sc m n wk w p (f # rest) =
         \<lparr>loop_events = evs, loop_world = w1, loop_processed = p, loop_ending = Escaped e\<rparr>"
  | (step) evs w1 where "is_running wk" "\<not> sc p"
      "iteration os (folder wk) m n w p f = (evs, w1, None)"
      "loop os sc m n wk w p (f # rest) =
         (loop os sc m n wk w1 (Suc p) rest)
           \<lparr>loop_events := evs @ loop_events (loop os sc m n wk w1 (Suc p) rest)\<rparr>"
proof (cases "sc p \<or> \<not> is_running wk")
  case True
  have "loop os sc m n wk w p (f # rest) =
      \<lparr>loop_events = [Log CancelledMsg], loop_world = w, loop_processed = p, loop_ending = Broke\<rparr>"
    by (rule loop_Cons_cancel) (rule True)
  with True show ?thesis by (rule cancel)
next
  case False
  then have r: "is_running wk" and n: "\<not> sc p" by simp_all
  obtain evs w1 x where it: "iteration os (folder wk) m n w p f = (evs, w1, x)"
    by (cases "iteration os (folder wk) m n w p f") auto
  show ?thesis
  proof (cases x)
    case None
    with it have i: "iteration os (folder wk) m n w p f = (evs, w1, None)" by simp
    have "loop os sc m n wk w p (f # rest) =
         (loop os sc m n wk w1 (Suc p) rest)
           \<lparr>loop_events := evs @ loop_events (loop os sc m n wk w1 (Suc p) rest)\<rparr>"
      using r n i by (rule loop_Cons_step)
    with r n i show ?thesis by (rule step)
  next
    case (Some e)
    with it have i: "iteration os (folder wk) m n w p f = (evs, w1, Some e)" by simp
    have "loop os sc m n wk w p (f # rest) =
         \<lparr>loop_events = evs, loop_world = w1, loop_processed = p, loop_ending = Escaped e\<rparr>"
      using r n i by (rule loop_Cons_escape)
    with r n i show ?thesis by (rule escape)
  qed
qed

lemma loop_processed_bounds:
  "p \<le> loop_processed (loop os sc m n wk w p files) \<and>
   loop_processed (loop os sc m n wk w p files) \<le> p + length files \<and>
   (loop_ending (loop os sc m n wk w p files) = Exhausted \<longrightarrow>
      loop_processed (loop os sc m n wk w p files) = p + length files)"
proof (induction files arbitrary: w p)
  case Nil
  show ?case by simp
next
  case (Cons f rest)
  show ?case
  proof (cases rule: loop_cases[where os=os and sc=sc and m=m and n=n and wk=wk and w=w and p=p and f=f and rest=rest])
    case cancel
    then show ?thesis by simp
  next
    case (escape evs w1 e)
    then show ?thesis by simp
  next
    case (step evs w1)
    then show ?thesis using Cons.IH[where w=w1 and p="Suc p"] by simp
  qed
qed

lemma loop_progress:
  "progress_values (loop_events (loop os sc m n wk w p files)) =
     map (\<lambda>i. progress_of i n) [Suc p ..< Suc (loop_processed (loop os sc m n wk w p files))]"
proof (induction files arbitrary: w p)
  case Nil
  show ?case by simp
next
  case (Cons f rest)
  show ?case
  proof (cases rule: loop_cases[where os=os and sc=sc and m=m and n=n and wk=wk and w=w and p=p and f=f and rest=rest])
    case cancel
    then show ?thesis by simp
  next
    case (escape evs w1 e)
    then show ?thesis by (simp add: iteration_escape_obs)
  next
    case (step evs w1)
    have le: "Suc p \<le> loop_processed (loop os sc m n wk w1 (Suc p) rest)"
      using loop_processed_bounds[of "Suc p" os sc m n wk w1 rest] by simp
    have "[Suc p ..< Suc (loop_processed (loop os sc m n wk w1 (Suc p) rest))] =
            Suc p # [Suc (Suc p) ..< Suc (loop_processed (loop os sc m n wk w1 (Suc p) rest))]"
      using le by (simp add: upt_conv_Cons)
    then show ?thesis
      using step Cons.IH[where w=w1 and p="Suc p"]
      by (simp add: progress_values_append iteration_obs)
  qed
qed

lemma loop_finished: "finished_count (loop_events (loop os sc m n wk w p files)) = 0"
proof (induction files arbitrary: w p)
  case Nil
  show ?case by simp
next
  case (Cons f rest)
  show ?case
  proof (cases rule: loop_cases[where os=os and sc=sc and m=m and n=n and wk=wk and w=w and p=p and f=f and rest=rest])
    case cancel
    then show ?thesis by simp
  next
    case (escape evs w1 e)
    then show ?thesis by (simp add: iteration_escape_obs)
  next
    case (step evs w1)
    then show ?thesis using Cons.IH[where w=w1 and p="Suc p"]
      by (simp add: finished_count_append iteration_obs)
  qed
qed

lemma loop_handled:
  "handled_names (loop_events (loop os sc m n wk w p files)) =
     take (loop_processed (loop os sc m n wk w p files) - p) files"
proof (induction files arbitrary: w p)
  case Nil
  show ?case by simp
next
  case (Cons f rest)
  show ?case
  proof (cases rule: loop_cases[where os=os and sc=sc and m=m and n=n and wk=wk and w=w and p=p and f=f and rest=rest])
    case cancel
    then show ?thesis by simp
  next
    case (escape evs w1 e)
    then show ?thesis by (simp add: iteration_escape_obs)
  next
    case (step evs w1)
    have le: "Suc p \<le> loop_processed (loop os sc m n wk w1 (Suc p) rest)"
      using loop_processed_bounds[of "Suc p" os sc m n wk w1 rest] by simp
    then have "loop_processed (loop os sc m n wk w1 (Suc p) rest) - p =
      Suc (loop_processed (loop os sc m n wk w1 (Suc p) rest) - Suc p)" by simp
    then show ?thesis using step Cons.IH[where w=w1 and p="Suc p"]
      by (simp add: handled_names_append iteration_obs)
  qed
qed

lemma loop_stop_at:
  assumes "is_running wk" "\<forall>i. p \<le> i \<and> i < p + k \<longrightarrow> \<not> sc i" "sc (p + k)" "k < length files"
    and "loop_ending (loop os (\<lambda>i. False) m n wk w p (take k files)) = Exhausted"
  shows "loop os sc m n wk w p files =
     \<lparr>loop_events = loop_events (loop os (\<lambda>i. False) m n wk w p (take k files)) @ [Log CancelledMsg],
      loop_world = loop_world (loop os (\<lambda>i. False) m n wk w p (take k files)),
      loop_processed = p + k, loop_ending = Broke\<rparr>"
  using assms
proof (induction k arbitrary: files w p)
  case 0
  then obtain f rest where "files = f # rest" by (cases files) auto
  with 0 show ?case by (simp add: loop_Cons_cancel)
next
  case (Suc k)
  then obtain f rest where fr: "files = f # rest" by (cases files) auto
  from Suc.prems(2) have nsc: "\<not> sc p" by simp
  note run = Suc.prems(1)
  have n0: "\<not> (\<lambda>i::nat. False) p" by simp
  obtain evs w1 x where it: "iteration os (folder wk) m n w p f = (evs, w1, x)"
    by (cases "iteration os (folder wk) m n w p f") auto
  show ?case
  proof (cases x)
    case (Some e)
    with it have i: "iteration os (folder wk) m n w p f = (evs, w1, Some e)" by simp
    have "loop os (\<lambda>i. False) m n wk w p (f # take k rest) =
      \<lparr>loop_events = evs, loop_world = w1, loop_processed = p, loop_ending = Escaped e\<rparr>"
      using run n0 i by (rule loop_Cons_escape)
    with Suc.prems(5) fr show ?thesis by simp
  next
    case None
    with it have i: "iteration os (folder wk) m n w p f = (evs, w1, None)" by simp
    have l0: "loop os (\<lambda>i. False) m n wk w p (f # take k rest) =
        (loop os (\<lambda>i. False) m n wk w1 (Suc p) (take k rest))
          \<lparr>loop_events := evs @ loop_events (loop os (\<lambda>i. False) m n wk w1 (Suc p) (take k rest))\<rparr>"
      using run n0 i by (rule loop_Cons_step)
    have l1: "loop os sc m n wk w p (f # rest) =
        (loop os sc m n wk w1 (Suc p) rest)
          \<lparr>loop_events := evs @ loop_events (loop os sc m n wk w1 (Suc p) rest)\<rparr>"
      using run nsc i by (rule loop_Cons_step)
    have e: "loop_ending (loop os (\<lambda>i. False) m n wk w1 (Suc p) (take k rest)) = Exhausted"
      using Suc.prems(5) by (simp add: fr l0)
    have ih: "loop os sc m n wk w1 (Suc p) rest =
      \<lparr>loop_events = loop_events (loop os (\<lambda>i. False) m n wk w1 (Suc p) (take k rest)) @ [Log CancelledMsg],
       loop_world = loop_world (loop os (\<lambda>i. False) m n wk w1 (Suc p) (take k rest)),
       loop_processed = Suc p + k, loop_ending = Broke\<rparr>"
      using Suc.prems(1-4) e fr by (intro Suc.IH) auto
    show ?thesis by (simp add: fr l0 l1 ih)
  qed
qed

lemma names_split:
  "length (handled_names evs) = length (moved_names evs) + length (failed_names evs)"
  by (induction evs rule: handled_names.induct) simp_all

lemma moved_if_none_failed: "failed_names evs = [] \<Longrightarrow> moved_names evs = handled_names evs"
  by (induction evs rule: handled_names.induct) simp_all

lemma iteration_no_escape:
  assumes "\<forall>w p. snd (makedirs os w p) = None" and "\<forall>w p. \<exists>y. mtime_year os w p = Inr y"
  shows "\<exists>evs w1. iteration os d m n w p f = (evs, w1, None)"
proof -
  obtain name where d: "destination os w d m f = Inr name"
  proof (cases m)
    case Photo
    obtain y where "mtime_year os w (join d f) = Inr y" using assms(2) by blast
    then have "\<exists>year. get_image_year os w (join d f) = Inr year"
      by (auto simp: get_image_year_def split: sum.splits option.splits)
    then obtain year where "get_image_year os w (join d f) = Inr year" by blast
    with Photo that show ?thesis by (simp add: destination_def)
  next
    case Default
    with that show ?thesis by (simp add: destination_def)
  qed
  obtain evs w1 where e: "ensure_dir os w (join d name) = (evs, w1, None)"
  proof (cases "exists os w (join d name)")
    case True
    with that show ?thesis by (simp add: ensure_dir_def)
  next
    case False
    obtain w1 x where mk: "makedirs os w (join d name) = (w1, x)"
      by (cases "makedirs os w (join d name)") auto
    with assms(1) have "x = None" by (metis snd_conv)
    with mk False that show ?thesis by (simp add: ensure_dir_def)
  qed
  obtain evs2 w2 where "move_file os w1 d (join d name) f = (evs2, w2)"
    by (cases "move_file os w1 d (join d name) f") auto
  with d e show ?thesis by (simp add: iteration_def)
qed

lemma loop_no_escape:
  assumes "\<forall>w p. snd (makedirs os w p) = None" and "\<forall>w p. \<exists>y. mtime_year os w p = Inr y"
    and "is_running wk" and "\<forall>i. \<not> sc i"
  shows "loop_ending (loop os sc m n wk w p files) = Exhausted"
proof (induction files arbitrary: w p)
  case Nil
  show ?case by simp
next
  case (Cons f rest)
  obtain evs w1 where it: "iteration os (folder wk) m n w p f = (evs, w1, None)"
    using iteration_no_escape[OF assms(1,2)] by blast
  have n: "\<not> sc p" using assms(4) by simp
  have "loop os sc m n wk w p (f # rest) =
     (loop os sc m n wk w1 (Suc p) rest)
       \<lparr>loop_events := evs @ loop_events (loop os sc m n wk w1 (Suc p) rest)\<rparr>"
    using assms(3) n it by (rule loop_Cons_step)
  then show ?case using Cons.IH[where w=w1 and p="Suc p"] by simp
qed


lemma loop_reaches_end:
  assumes "\<forall>w p. snd (makedirs os w p) = None" and "\<forall>w p. \<exists>y. mtime_year os w p = Inr y"
    and "is_running wk" and "\<forall>i. p \<le> i \<and> i < p + length files \<longrightarrow> \<not> sc i"
  shows "loop_ending (loop os sc m n wk w p files) = Exhausted"
  using assms(4)
proof (induction files arbitrary: w p)
  case Nil
  show ?case by simp
next
  case (Cons f rest)
  obtain evs w1 where it: "iteration os (folder wk) m n w p f = (evs, w1, None)"
    using iteration_no_escape[OF assms(1,2)] by blast
  have n: "\<not> sc p" using Cons.prems by simp
  have "loop os sc m n wk w p (f # rest) =
     (loop os sc m n wk w1 (Suc p) rest)
       \<lparr>loop_events := evs @ loop_events (loop os sc m n wk w1 (Suc p) rest)\<rparr>"
    using assms(3) n it by (rule loop_Cons_step)
  moreover have "\<forall>i. Suc p \<le> i \<and> i < Suc p + length rest \<longrightarrow> \<not> sc i"
    using Cons.prems by simp
  ultimately show ?case using Cons.IH[where w=w1 and p="Suc p"] by simp
qed

section \<open>Facts about a run\<close>

lemma run_zero:
  assumes "listdir os w (folder wk) = Inr names"
    and "\<forall>n \<in> set names. \<not> isfile os w (join (folder wk) n)"
  shows "run os sc wk w =
     \<lparr>events = [Log NoFiles, Finished], world = w, processed_count = 0, outcome = ZeroFiles\<rparr>"
proof -
  have "filter (\<lambda>f. isfile os w (join (folder wk) f)) names = []"
    using assms(2) by (simp add: filter_empty_conv)
  then show ?thesis using assms(1) by (simp add: run_def)
qed

lemma run_nonempty:
  assumes "listdir os w (folder wk) = Inr names"
    and "files = filter (\<lambda>f. isfile os w (join (folder wk) f)) names"
    and "files \<noteq> []"
    and "r = loop os sc (determine_mode files) (length files) wk w 0 files"
  shows "run os sc wk w =
     (case loop_ending r of
        Escaped e \<Rightarrow>
          \<lparr>events = [Log (case determine_mode files of Photo \<Rightarrow> PhotoMode | Default \<Rightarrow> DefaultMode)] @ loop_events r,
           world = loop_world r, processed_count = loop_processed r, outcome = Crashed e\<rparr>
      | Broke \<Rightarrow>
          \<lparr>events = [Log (case determine_mode files of Photo \<Rightarrow> PhotoMode | Default \<Rightarrow> DefaultMode)] @ loop_events r @ [Log Done, Finished],
           world = loop_world r, processed_count = loop_processed r, outcome = Cancelled\<rparr>
      | Exhausted \<Rightarrow>
          \<lparr>events = [Log (case determine_mode files of Photo \<Rightarrow> PhotoMode | Default \<Rightarrow> DefaultMode)] @ loop_events r @ [Log Done, Finished],
           world = loop_world r, processed_count = loop_processed r, outcome = Completed\<rparr>)"
proof -
  have "filter (\<lambda>f. isfile os w (join (folder wk) f)) names \<noteq> []"
    using assms(2,3) by simp
  then show ?thesis
    unfolding assms(4) assms(2) using assms(1) by (simp add: run_def Let_def)
qed

lemma run_progress:
  assumes "listdir os w (folder wk) = Inr names"
    and "files = filter (\<lambda>f. isfile os w (join (folder wk) f)) names"
    and "files \<noteq> []"
  shows "progress_values (events (run os sc wk w)) =
           map (\<lambda>i. progress_of i (length files)) [1 ..< Suc (processed_count (run os sc wk w))]"
    and "processed_count (run os sc wk w) \<le> length files"
    and "outcome (run os sc wk w) = Completed \<Longrightarrow> processed_count (run os sc wk w) = length files"
proof -
  define r where "r = loop os sc (determine_mode files) (length files) wk w 0 files"
  note R = run_nonempty[OF assms r_def]
  note B = loop_processed_bounds[of 0 os sc "determine_mode files" "length files" wk w files]
  note P = loop_progress[of os sc "determine_mode files" "length files" wk w 0 files]
  show "progress_values (events (run os sc wk w)) =
           map (\<lambda>i. progress_of i (length files)) [1 ..< Suc (processed_count (run os sc wk w))]"
    using P by (cases "loop_ending r")
      (simp_all add: R progress_values_append r_def split: mode.splits)
  show "processed_count (run os sc wk w) \<le> length files"
    using B by (cases "loop_ending r") (simp_all add: R r_def)
  show "outcome (run os sc wk w) = Completed \<Longrightarrow> processed_count (run os sc wk w) = length files"
    using B by (cases "loop_ending r") (simp_all add: R r_def)
qed

lemma sorted_progress: "sorted (map (\<lambda>i. progress_of i n) [a ..< b])"
  by (simp add: sorted_map sorted_wrt_iff_nth_less progress_of_mono)

lemma run_completes_despite_failures:
  assumes "listdir os w (folder wk) = Inr names"
    and "files = filter (\<lambda>f. isfile os w (join (folder wk) f)) names"
    and "files \<noteq> []"
    and "\<forall>w p. snd (makedirs os w p) = None" and "\<forall>w p. \<exists>y. mtime_year os w p = Inr y"
    and "is_running wk" and "\<forall>i. \<not> sc i"
  shows "outcome (run os sc wk w) = Completed \<and>
         processed_count (run os sc wk w) = length files \<and>
         handled_names (events (run os sc wk w)) = files"
proof -
  define r where "r = loop os sc (determine_mode files) (length files) wk w 0 files"
  note R = run_nonempty[OF assms(1-3) r_def]
  have e: "loop_ending r = Exhausted" unfolding r_def by (rule loop_no_escape[OF assms(4-7)])
  have c: "loop_processed r = length files"
    using e loop_processed_bounds[of 0 os sc "determine_mode files" "length files" wk w files]
    by (simp add: r_def)
  have h: "handled_names (loop_events r) = files"
    using c loop_handled[of os sc "determine_mode files" "length files" wk w 0 files]
    by (simp add: r_def)
  show ?thesis using e c h by (simp add: R handled_names_append split: mode.splits)
qed

lemma run_reaches_end:
  assumes "listdir os w (folder wk) = Inr names"
    and "files = filter (\<lambda>f. isfile os w (join (folder wk) f)) names"
    and "files \<noteq> []"
    and "\<forall>w p. snd (makedirs os w p) = None" and "\<forall>w p. \<exists>y. mtime_year os w p = Inr y"
    and "is_running wk" and "\<forall>i<length files. \<not> sc i"
  shows "outcome (run os sc wk w) = Completed \<and>
         processed_count (run os sc wk w) = length files \<and>
         handled_names (events (run os sc wk w)) = files"
proof -
  define r where "r = loop os sc (determine_mode files) (length files) wk w 0 files"
  note R = run_nonempty[OF assms(1-3) r_def]
  have s: "\<forall>i. 0 \<le> i \<and> i < 0 + length files \<longrightarrow> \<not> sc i" using assms(7) by simp
  have e: "loop_ending r = Exhausted" unfolding r_def
    by (rule loop_reaches_end[OF assms(4-6) s])
  have c: "loop_processed r = length files"
    using e loop_processed_bounds[of 0 os sc "determine_mode files" "length files" wk w files]
    by (simp add: r_def)
  have h: "handled_names (loop_events r) = files"
    using c loop_handled[of os sc "determine_mode files" "length files" wk w 0 files]
    by (simp add: r_def)
  show ?thesis using e c h by (simp add: R handled_names_append split: mode.splits)
qed

lemma progress_bounds:
  assumes "listdir os w (folder wk) = Inr names"
    and "files = filter (\<lambda>f. isfile os w (join (folder wk) f)) names"
    and "files \<noteq> []"
  shows "sorted (progress_values (events (run os sc wk w)))"
    and "\<forall>v \<in> set (progress_values (events (run os sc wk w))). 0 \<le> v \<and> v \<le> 100"
proof -
  note P = run_progress[OF assms]
  have n: "0 < length files" using assms(3) by simp
  show "sorted (progress_values (events (run os sc wk w)))"
    by (simp only: P(1) sorted_progress)
  show "\<forall>v \<in> set (progress_values (events (run os sc wk w))). 0 \<le> v \<and> v \<le> 100"
  proof
    fix v
    assume a: "v \<in> set (progress_values (events (run os sc wk w)))"
    have "set (progress_values (events (run os sc wk w))) =
        (\<lambda>i. progress_of i (length files)) ` {1 ..< Suc (processed_count (run os sc wk w))}"
      by (simp only: P(1) set_map set_upt)
    with a obtain i where i: "i \<in> {1 ..< Suc (processed_count (run os sc wk w))}"
      and v: "v = progress_of i (length files)"
      by blast
    from i P(2)[of sc] have "i \<le> length files" by simp
    then show "0 \<le> v \<and> v \<le> 100"
      using n by (simp add: v progress_of_nonneg progress_of_le_100)
  qed
qed

lemma progress_full:
  assumes "listdir os w (folder wk) = Inr names"
    and "files = filter (\<lambda>f. isfile os w (join (folder wk) f)) names"
    and "files \<noteq> []"
    and "processed_count (run os sc wk w) = length files"
  shows "progress_values (events (run os sc wk w)) =
           map (\<lambda>i. progress_of i (length files)) [1 ..< Suc (length files)]"
    and "progress_values (events (run os sc wk w)) \<noteq> []"
    and "last (progress_values (events (run os sc wk w))) = 100"
proof -
  note P = run_progress[OF assms(1-3)]
  have n: "0 < length files" using assms(3) by simp
  have n1: "Suc 0 \<le> length files" using assms(3) by (cases files) simp_all
  show f: "progress_values (events (run os sc wk w)) =
           map (\<lambda>i. progress_of i (length files)) [1 ..< Suc (length files)]"
    by (simp only: P(1) assms(4))
  have "[1 ..< Suc (length files)] = [1 ..< length files] @ [length files]"
    using n1 by simp
  then have "progress_values (events (run os sc wk w)) =
        map (\<lambda>i. progress_of i (length files)) [1 ..< length files] @
          [progress_of (length files) (length files)]"
    by (simp add: f)
  then show "progress_values (events (run os sc wk w)) \<noteq> []"
    and "last (progress_values (events (run os sc wk w))) = 100"
    using n by (simp_all add: progress_of_full)
qed

lemma crashed_run_never_signals:
  "outcome (run os sc wk w) = Crashed e \<Longrightarrow> finished_count (events (run os sc wk w)) = 0"
proof (cases "listdir os w (folder wk)")
  case (Inl e')
  then show ?thesis by (simp add: run_def)
next
  case (Inr names)
  assume c: "outcome (run os sc wk w) = Crashed e"
  define files where "files = filter (\<lambda>f. isfile os w (join (folder wk) f)) names"
  show ?thesis
  proof (cases "files = []")
    case True
    with c Inr show ?thesis by (simp add: run_def files_def)
  next
    case False
    define r where "r = loop os sc (determine_mode files) (length files) wk w 0 files"
    note R = run_nonempty[OF Inr files_def False r_def]
    have F: "finished_count (loop_events r) = 0" by (simp add: r_def loop_finished)
    from c show ?thesis
      by (cases "loop_ending r") (simp_all add: R F)
  qed
qed

lemma locked_os_makedirs: "\<forall>w p. snd (makedirs locked_os w p) = None"
  by (simp add: locked_os_def sim_os_def)

lemma locked_os_mtime: "\<forall>w p. \<exists>y. mtime_year locked_os w p = Inr y"
  by (simp add: locked_os_def sim_os_def years_def)

section \<open>The mode and the destination\<close>

lemma determine_mode_Photo_iff:
  "determine_mode files = Photo \<longleftrightarrow>
     (\<forall>f \<in> set files. has_dot f \<longrightarrow>
        rev (takeWhile (\<lambda>c. c \<noteq> CHR ''.'') (rev (lower f))) \<in> PHOTO_EXTENSIONS)"
  by (auto simp: determine_mode_def list_all_iff last_split)

lemma default_ext_dotted:
  "has_dot f \<Longrightarrow> default_ext f = rev (takeWhile (\<lambda>c. c \<noteq> CHR ''.'') (rev f))"
  by (simp add: default_ext_def last_split)

text \<open>
  C1. The claim: for a non-empty list of names, the mode is Photo exactly when the
  lower-cased text after the last dot of every name is a photo extension, and a name
  without a dot forces Default. The comment of line 52 says the same (year mode if all
  files are photos). The code drops the names without a dot before it tests the others:
  for the folder that holds the single file \<open>README\<close>, whose text after the last dot
  (the whole name) is no photo extension, it answers Photo.
\<close>

theorem determine_mode_dotless_is_photo:
  "determine_mode [''README''] = Photo \<and>
   last (split CHR ''.'' (lower ''README'')) \<notin> PHOTO_EXTENSIONS"
  by (simp add: determine_mode_def has_dot_def lower_def lower_chr_def PHOTO_EXTENSIONS_def)

text \<open>
  C2. The claim: in Default mode the destination is the lower-cased text after the last
  dot of the name, or the label of the files without extension. Line 53 lower-cases the
  name before it splits it; line 70 splits the name as it is. For \<open>REPORT.PDF\<close> the
  destination is \<open>PDF\<close>, where the claim says \<open>pdf\<close>.
\<close>

theorem default_ext_keeps_case:
  "default_ext ''REPORT.PDF'' = ''PDF'' \<and>
   lower (last (split CHR ''.'' ''REPORT.PDF'')) = ''pdf''"
  by (simp add: default_ext_def has_dot_def lower_def lower_chr_def)

text \<open>
  C3, as the code has it. In Photo mode the destination is the label of line 68, a
  space and the year. When the image opens and its EXIF data hold a string under the
  capture-date tag, the year is the text of that string before its first colon: the
  four characters of the year for a date of the form \<open>YYYY:MM:DD HH:MM:SS\<close>. In every
  other case (the image does not open, there are no EXIF data, the tag is absent, its
  value is not a string) the year is what line 32 reads from the modification time, and
  an exception of line 32 leaves the function.
\<close>

theorem photo_destination:
  "destination os w dir Photo f =
     (case (case open_exif os w (join dir f) of Opened (Some items) \<Rightarrow> map_of items 0x9003 | _ \<Rightarrow> None) of
        Some (StrValue v) \<Rightarrow> Inr (photos_label @ '' '' @ takeWhile (\<lambda>c. c \<noteq> CHR '':'') v)
      | _ \<Rightarrow> (case mtime_year os w (join dir f) of
                Inl e \<Rightarrow> Inl e
              | Inr y \<Rightarrow> Inr (photos_label @ '' '' @ y))) \<and>
   (\<forall>items y4 rest.
      open_exif os w (join dir f) = Opened (Some items) \<longrightarrow>
      map_of items 0x9003 = Some (StrValue (y4 @ '':'' @ rest)) \<longrightarrow>
      CHR '':'' \<notin> set y4 \<longrightarrow>
      destination os w dir Photo f = Inr (photos_label @ '' '' @ y4))"
proof (rule conjI)
  show "destination os w dir Photo f =
     (case (case open_exif os w (join dir f) of Opened (Some items) \<Rightarrow> map_of items 0x9003 | _ \<Rightarrow> None) of
        Some (StrValue v) \<Rightarrow> Inr (photos_label @ '' '' @ takeWhile (\<lambda>c. c \<noteq> CHR '':'') v)
      | _ \<Rightarrow> (case mtime_year os w (join dir f) of
                Inl e \<Rightarrow> Inl e
              | Inr y \<Rightarrow> Inr (photos_label @ '' '' @ y)))"
    by (rule photo_destination_eq)
  show "\<forall>items y4 rest.
      open_exif os w (join dir f) = Opened (Some items) \<longrightarrow>
      map_of items 0x9003 = Some (StrValue (y4 @ '':'' @ rest)) \<longrightarrow>
      CHR '':'' \<notin> set y4 \<longrightarrow>
      destination os w dir Photo f = Inr (photos_label @ '' '' @ y4)"
  proof (intro allI impI)
    fix items y4 rest
    assume a: "open_exif os w (join dir f) = Opened (Some items)"
      and b: "map_of items 0x9003 = Some (StrValue (y4 @ '':'' @ rest))"
      and c: "CHR '':'' \<notin> set y4"
    show "destination os w dir Photo f = Inr (photos_label @ '' '' @ y4)"
      by (simp only: photo_destination_eq a b image_read.case option.case exif_value.case
          takeWhile_year[OF c])
  qed
qed

text \<open>
  The statement at \<open>a.jpg\<close>, whose capture date is \<open>2020:03:01 10:00:00\<close>: the
  destination ends in \<open>2020\<close>.
\<close>

theorem photo_destination_witness:
  "open_exif photo_os photo_folder (join ''/d'' ''a.jpg'') =
     Opened (Some [(0x010F, StrValue ''Camera''), (0x9003, StrValue (''2020'' @ '':'' @ ''03:01 10:00:00''))]) \<and>
   map_of [(0x010F, StrValue ''Camera''), (0x9003, StrValue (''2020'' @ '':'' @ ''03:01 10:00:00''))] (0x9003::int) =
     Some (StrValue (''2020'' @ '':'' @ ''03:01 10:00:00'')) \<and>
   CHR '':'' \<notin> set ''2020'' \<and>
   destination photo_os photo_folder ''/d'' Photo ''a.jpg'' = Inr (photos_label @ '' '' @ ''2020'')"
proof -
  have h1: "open_exif photo_os photo_folder (join ''/d'' ''a.jpg'') =
     Opened (Some [(0x010F, StrValue ''Camera''), (0x9003, StrValue (''2020'' @ '':'' @ ''03:01 10:00:00''))])"
    by code_simp
  have h2: "map_of [(0x010F, StrValue ''Camera''), (0x9003, StrValue (''2020'' @ '':'' @ ''03:01 10:00:00''))] (0x9003::int) =
     Some (StrValue (''2020'' @ '':'' @ ''03:01 10:00:00''))"
    by simp
  have h3: "CHR '':'' \<notin> set ''2020''" by simp
  have c: "destination photo_os photo_folder ''/d'' Photo ''a.jpg'' = Inr (photos_label @ '' '' @ ''2020'')"
    using photo_destination[of photo_os photo_folder "''/d''" "''a.jpg''"] h1 h2 h3 by blast
  from h1 h2 h3 c show ?thesis by blast
qed

text \<open>
  C3 as the claim states it asks for the four-digit prefix of the capture date. The
  image \<open>d.jpg\<close> carries the date \<open>2020-03-01 10:00:00\<close>; its year is the text before the
  first colon, \<open>2020-03-01 10\<close>, not the prefix \<open>2020\<close>.
\<close>

theorem photo_year_counterexample:
  "open_exif photo_os photo_folder (join ''/d'' ''d.jpg'') =
     Opened (Some [(0x9003, StrValue ''2020-03-01 10:00:00'')]) \<and>
   destination photo_os photo_folder ''/d'' Photo ''d.jpg'' = Inr (photos_label @ '' '' @ ''2020-03-01 10'') \<and>
   ''2020-03-01 10'' \<noteq> take 4 ''2020-03-01 10:00:00''"
  by code_simp

section \<open>Progress of a run\<close>

text \<open>
  C4, as the code has it. In every run with at least one file the progress values are
  the values of line 81 for 1, 2, ... up to the number of files processed; they never
  decrease and each lies between 0 and 100. A run that is not cancelled, in an
  environment where \<open>makedirs\<close> and line 32 do not raise, reaches the end of its loop and
  ends with 100, whatever moves fail; so does every run that reaches the end of its
  loop.
\<close>

theorem progress_monotone_bounded_final:
  assumes "listdir os w (folder wk) = Inr names"
    and "files = filter (\<lambda>f. isfile os w (join (folder wk) f)) names"
    and "files \<noteq> []"
  shows "sorted (progress_values (events (run os sc wk w))) \<and>
         (\<forall>v \<in> set (progress_values (events (run os sc wk w))). 0 \<le> v \<and> v \<le> 100) \<and>
         progress_values (events (run os sc wk w)) =
           map (\<lambda>i. progress_of i (length files)) [1 ..< Suc (processed_count (run os sc wk w))] \<and>
         processed_count (run os sc wk w) \<le> length files \<and>
         (is_running wk \<and> (\<forall>i<length files. \<not> sc i) \<and>
          (\<forall>w p. snd (makedirs os w p) = None) \<and> (\<forall>w p. \<exists>y. mtime_year os w p = Inr y) \<longrightarrow>
            outcome (run os sc wk w) = Completed \<and>
            progress_values (events (run os sc wk w)) =
              map (\<lambda>i. progress_of i (length files)) [1 ..< Suc (length files)] \<and>
            last (progress_values (events (run os sc wk w))) = 100) \<and>
         (outcome (run os sc wk w) = Completed \<longrightarrow>
            progress_values (events (run os sc wk w)) \<noteq> [] \<and>
            last (progress_values (events (run os sc wk w))) = 100)"
proof -
  note P = run_progress[OF assms]
  note B = progress_bounds[OF assms]
  have e: "is_running wk \<and> (\<forall>i<length files. \<not> sc i) \<and>
          (\<forall>w p. snd (makedirs os w p) = None) \<and> (\<forall>w p. \<exists>y. mtime_year os w p = Inr y) \<longrightarrow>
            outcome (run os sc wk w) = Completed \<and>
            progress_values (events (run os sc wk w)) =
              map (\<lambda>i. progress_of i (length files)) [1 ..< Suc (length files)] \<and>
            last (progress_values (events (run os sc wk w))) = 100"
  proof
    assume a: "is_running wk \<and> (\<forall>i<length files. \<not> sc i) \<and>
          (\<forall>w p. snd (makedirs os w p) = None) \<and> (\<forall>w p. \<exists>y. mtime_year os w p = Inr y)"
    then have a1: "is_running wk" and a2: "\<forall>i<length files. \<not> sc i"
      and a3: "\<forall>w p. snd (makedirs os w p) = None" and a4: "\<forall>w p. \<exists>y. mtime_year os w p = Inr y"
      by blast+
    note E = run_reaches_end[OF assms a3 a4 a1 a2]
    from E have c: "processed_count (run os sc wk w) = length files" by simp
    from E progress_full(1,3)[OF assms c]
    show "outcome (run os sc wk w) = Completed \<and>
            progress_values (events (run os sc wk w)) =
              map (\<lambda>i. progress_of i (length files)) [1 ..< Suc (length files)] \<and>
            last (progress_values (events (run os sc wk w))) = 100"
      by simp
  qed
  have l: "outcome (run os sc wk w) = Completed \<longrightarrow>
            progress_values (events (run os sc wk w)) \<noteq> [] \<and>
            last (progress_values (events (run os sc wk w))) = 100"
  proof
    assume "outcome (run os sc wk w) = Completed"
    then have c: "processed_count (run os sc wk w) = length files" by (rule P(3))
    from progress_full(2,3)[OF assms c]
    show "progress_values (events (run os sc wk w)) \<noteq> [] \<and>
            last (progress_values (events (run os sc wk w))) = 100" by simp
  qed
  from B(1) B(2) P(1)[of sc] P(2)[of sc] e l show ?thesis by (intro conjI)
qed

text \<open>
  The statement at a folder of three text files where the move of the first one fails:
  the run is never cancelled, the progress values are 33, 66 and 100.
\<close>

theorem progress_witness:
  "listdir locked_os text_folder (folder (init ''/d'')) = Inr [''a.txt'', ''b.txt'', ''c.txt''] \<and>
   [''a.txt'', ''b.txt'', ''c.txt''] =
     filter (\<lambda>f. isfile locked_os text_folder (join (folder (init ''/d'')) f)) [''a.txt'', ''b.txt'', ''c.txt''] \<and>
   [''a.txt'', ''b.txt'', ''c.txt''] \<noteq> ([] :: string list) \<and>
   is_running (init ''/d'') \<and> (\<forall>i. \<not> never i) \<and>
   (\<forall>w p. snd (makedirs locked_os w p) = None) \<and>
   (\<forall>w p. \<exists>y. mtime_year locked_os w p = Inr y) \<and>
   failed_names (events (run locked_os never (init ''/d'') text_folder)) = [''a.txt''] \<and>
   outcome (run locked_os never (init ''/d'') text_folder) = Completed \<and>
   progress_values (events (run locked_os never (init ''/d'') text_folder)) = [33, 66, 100] \<and>
   sorted (progress_values (events (run locked_os never (init ''/d'') text_folder))) \<and>
   last (progress_values (events (run locked_os never (init ''/d'') text_folder))) = 100"
proof -
  have h1: "listdir locked_os text_folder (folder (init ''/d'')) = Inr [''a.txt'', ''b.txt'', ''c.txt'']"
    by code_simp
  have h2: "[''a.txt'', ''b.txt'', ''c.txt''] =
     filter (\<lambda>f. isfile locked_os text_folder (join (folder (init ''/d'')) f)) [''a.txt'', ''b.txt'', ''c.txt'']"
    by code_simp
  have h3: "[''a.txt'', ''b.txt'', ''c.txt''] \<noteq> ([] :: string list)" by simp
  have h4: "is_running (init ''/d'')" by (simp add: init_def)
  have h5: "\<forall>i. \<not> never i" by (simp add: never_def)
  note h6 = locked_os_makedirs and h7 = locked_os_mtime
  have f: "failed_names (events (run locked_os never (init ''/d'') text_folder)) = [''a.txt'']"
    by code_simp
  have v: "progress_values (events (run locked_os never (init ''/d'') text_folder)) = [33, 66, 100]"
    by code_simp
  note T = progress_monotone_bounded_final[OF h1 h2 h3, of never]
  have c1: "sorted (progress_values (events (run locked_os never (init ''/d'') text_folder)))"
    by (rule T[THEN conjunct1])
  have pre: "is_running (init ''/d'') \<and> (\<forall>i<length [''a.txt'', ''b.txt'', ''c.txt'']. \<not> never i) \<and>
      (\<forall>w p. snd (makedirs locked_os w p) = None) \<and> (\<forall>w p. \<exists>y. mtime_year locked_os w p = Inr y)"
    using h4 h5 h6 h7 by blast
  have c5: "outcome (run locked_os never (init ''/d'') text_folder) = Completed \<and>
      progress_values (events (run locked_os never (init ''/d'') text_folder)) =
        map (\<lambda>i. progress_of i (length [''a.txt'', ''b.txt'', ''c.txt''])) [1 ..< Suc (length [''a.txt'', ''b.txt'', ''c.txt''])] \<and>
      last (progress_values (events (run locked_os never (init ''/d'') text_folder))) = 100"
    using T[THEN conjunct2, THEN conjunct2, THEN conjunct2, THEN conjunct2, THEN conjunct1] pre
    by (rule mp)
  have o: "outcome (run locked_os never (init ''/d'') text_folder) = Completed"
    using c5 by (rule conjunct1)
  have c4: "last (progress_values (events (run locked_os never (init ''/d'') text_folder))) = 100"
    using c5 by (elim conjE)
  show ?thesis
    by (intro conjI) (rule h1 h2 h3 h4 h5 h6 h7 f o v c1 c4)+
qed

text \<open>
  C4 as the claim states it says that every run that is not cancelled ends with 100.
  With two files, \<open>stop\<close> never called, and \<open>makedirs\<close> raising for the folder of the
  second file, the exception leaves \<open>run\<close> (line 73 is outside the \<open>try\<close>) and the last
  progress value is 50.
\<close>

theorem progress_counterexample:
  "is_running (init ''/d'') \<and> (\<forall>i. \<not> never i) \<and>
   outcome (run broken_os never (init ''/d'') mixed_folder) = Crashed (Exn ''denied'') \<and>
   progress_values (events (run broken_os never (init ''/d'') mixed_folder)) = [50]"
proof -
  have h4: "is_running (init ''/d'')" by (simp add: init_def)
  have h5: "\<forall>i. \<not> never i" by (simp add: never_def)
  have o: "outcome (run broken_os never (init ''/d'') mixed_folder) = Crashed (Exn ''denied'')"
    by code_simp
  have v: "progress_values (events (run broken_os never (init ''/d'') mixed_folder)) = [50]"
    by code_simp
  show ?thesis by (intro conjI) (rule h4 h5 o v)+
qed

section \<open>Errors of the metadata and of the move\<close>

text \<open>
  C5, as the code has it. Whatever the \<open>try\<close> raises, from \<open>Image.open\<close> to the
  \<open>split\<close> of a value that is not a string, is swallowed, and the result is what line 32
  gives. Line 32 is outside the \<open>try\<close>: an exception leaves \<open>get_image_year\<close> only when
  line 32 raises it, and the function returns a year whenever line 32 does.
\<close>

theorem get_image_year_swallows_metadata_errors:
  "(\<forall>e. try_exif (open_exif os w p) = Inl e \<longrightarrow> get_image_year os w p = mtime_year os w p) \<and>
   (\<forall>e. open_exif os w p = OpenRaises e \<longrightarrow> get_image_year os w p = mtime_year os w p) \<and>
   (\<forall>e. get_image_year os w p = Inl e \<longrightarrow> mtime_year os w p = Inl e) \<and>
   (\<forall>y. mtime_year os w p = Inr y \<longrightarrow> (\<exists>year. get_image_year os w p = Inr year))"
  by (auto simp: get_image_year_def try_exif_def split: sum.splits option.splits)

text \<open>
  The statement at \<open>c.jpg\<close>, which cannot be opened: the year is 2021, the year of its
  modification time.
\<close>

theorem get_image_year_swallows_witness:
  "open_exif photo_os photo_folder ''/d/c.jpg'' = OpenRaises (Exn ''cannot identify image file'') \<and>
   mtime_year photo_os photo_folder ''/d/c.jpg'' = Inr ''2021'' \<and>
   get_image_year photo_os photo_folder ''/d/c.jpg'' = Inr ''2021''"
proof -
  have h1: "open_exif photo_os photo_folder ''/d/c.jpg'' = OpenRaises (Exn ''cannot identify image file'')"
    by code_simp
  have h2: "mtime_year photo_os photo_folder ''/d/c.jpg'' = Inr ''2021''" by code_simp
  have "get_image_year photo_os photo_folder ''/d/c.jpg'' = mtime_year photo_os photo_folder ''/d/c.jpg''"
    using get_image_year_swallows_metadata_errors[of photo_os photo_folder "''/d/c.jpg''"] h1 by blast
  with h1 h2 show ?thesis by simp
qed

text \<open>
  C5 as the claim states it says that nothing is raised for an existing regular file.
  For the regular file \<open>c.jpg\<close>, which cannot be opened, in the environment where line 32
  raises, the exception of line 32 leaves the function.
\<close>

theorem get_image_year_counterexample:
  "isfile late_os corrupt_folder ''/d/c.jpg'' \<and>
   open_exif late_os corrupt_folder ''/d/c.jpg'' = OpenRaises (Exn ''cannot identify image file'') \<and>
   get_image_year late_os corrupt_folder ''/d/c.jpg'' = Inl (Exn ''year out of range'')"
  by code_simp



section \<open>Completion, cancellation and the organized folder\<close>




text \<open>
  C8, as the code has it. Let \<open>stop\<close> be called after exactly \<open>k\<close> of the \<open>n\<close> files have
  been processed (\<open>k < n\<close>; the loop over the first \<open>k\<close> files reaches its end). Then the
  run does to the world what the loop over the first \<open>k\<close> files does and nothing more,
  emits the events of that loop, the cancellation line, the final line and the
  completion signal, once, and ends with \<open>k\<close> files processed. The move has been tried
  for exactly the first \<open>k\<close> files: each of them is moved or logged as failed, so \<open>k\<close>
  files are moved when no move fails.
\<close>

theorem cancel_after_k:
  assumes "listdir os w (folder wk) = Inr names"
    and "files = filter (\<lambda>f. isfile os w (join (folder wk) f)) names"
    and "k < length files"
    and "is_running wk" and "\<forall>i<k. \<not> sc i" and "sc k"
    and "r0 = loop os (\<lambda>i. False) (determine_mode files) (length files) wk w 0 (take k files)"
    and "loop_ending r0 = Exhausted"
  shows "events (run os sc wk w) =
           [Log (case determine_mode files of Photo \<Rightarrow> PhotoMode | Default \<Rightarrow> DefaultMode)] @
           loop_events r0 @ [Log CancelledMsg, Log Done, Finished] \<and>
         world (run os sc wk w) = loop_world r0 \<and>
         processed_count (run os sc wk w) = k \<and>
         outcome (run os sc wk w) = Cancelled \<and>
         handled_names (events (run os sc wk w)) = take k files \<and>
         length (moved_names (events (run os sc wk w))) +
           length (failed_names (events (run os sc wk w))) = k \<and>
         (failed_names (events (run os sc wk w)) = [] \<longrightarrow>
            moved_names (events (run os sc wk w)) = take k files) \<and>
         finished_count (events (run os sc wk w)) = 1"
proof -
  define r where "r = loop os sc (determine_mode files) (length files) wk w 0 files"
  have ne: "files \<noteq> []" using assms(3) by auto
  note R = run_nonempty[OF assms(1,2) ne r_def]
  have a: "\<forall>i. 0 \<le> i \<and> i < 0 + k \<longrightarrow> \<not> sc i" using assms(5) by simp
  have b: "sc (0 + k)" using assms(6) by simp
  have e: "loop_ending (loop os (\<lambda>i. False) (determine_mode files) (length files) wk w 0 (take k files)) = Exhausted"
    using assms(7,8) by simp
  have L: "r = \<lparr>loop_events = loop_events r0 @ [Log CancelledMsg], loop_world = loop_world r0,
      loop_processed = k, loop_ending = Broke\<rparr>"
    unfolding r_def assms(7)
    using loop_stop_at[OF assms(4) a b assms(3) e] by simp
  have h0: "handled_names (loop_events r0) = take k files"
  proof -
    have "loop_processed r0 = 0 + length (take k files)"
      using assms(8) loop_processed_bounds[of 0 os "\<lambda>i. False" "determine_mode files" "length files" wk w "take k files"]
      by (simp add: assms(7))
    then show ?thesis
      using loop_handled[of os "\<lambda>i. False" "determine_mode files" "length files" wk w 0 "take k files"]
        assms(3)
      by (simp add: assms(7) min_def)
  qed
  have ev: "events (run os sc wk w) =
           [Log (case determine_mode files of Photo \<Rightarrow> PhotoMode | Default \<Rightarrow> DefaultMode)] @
           loop_events r0 @ [Log CancelledMsg, Log Done, Finished]"
    by (simp add: R L)
  have hn: "handled_names (events (run os sc wk w)) = take k files"
    by (simp add: ev handled_names_append h0 split: mode.splits)
  have len: "length (moved_names (events (run os sc wk w))) +
           length (failed_names (events (run os sc wk w))) = k"
    using names_split[of "events (run os sc wk w)"] assms(3) by (simp add: hn)
  have mv: "failed_names (events (run os sc wk w)) = [] \<longrightarrow>
            moved_names (events (run os sc wk w)) = take k files"
    using moved_if_none_failed[of "events (run os sc wk w)"] by (simp add: hn)
  have fc: "finished_count (events (run os sc wk w)) = 1"
    using loop_finished[of os "\<lambda>i. False" "determine_mode files" "length files" wk w 0 "take k files"]
    by (simp add: ev finished_count_append assms(7))
  have rest: "world (run os sc wk w) = loop_world r0 \<and>
         processed_count (run os sc wk w) = k \<and>
         outcome (run os sc wk w) = Cancelled"
    by (simp add: R L)
  from ev rest hn len mv fc show ?thesis by blast
qed

text \<open>
  The statement at the scenario of the specification: three files, \<open>stop\<close> called
  after the first.
\<close>

theorem cancel_after_k_witness:
  "listdir photo_os text_folder (folder (init ''/d'')) = Inr [''a.txt'', ''b.txt'', ''c.txt''] \<and>
   [''a.txt'', ''b.txt'', ''c.txt''] =
     filter (\<lambda>f. isfile photo_os text_folder (join (folder (init ''/d'')) f)) [''a.txt'', ''b.txt'', ''c.txt''] \<and>
   1 < length [''a.txt'', ''b.txt'', ''c.txt''] \<and>
   is_running (init ''/d'') \<and> \<not> after_one 0 \<and> after_one 1 \<and>
   loop_ending (loop photo_os (\<lambda>i. False) (determine_mode [''a.txt'', ''b.txt'', ''c.txt''])
      (length [''a.txt'', ''b.txt'', ''c.txt'']) (init ''/d'') text_folder 0
      (take 1 [''a.txt'', ''b.txt'', ''c.txt''])) = Exhausted \<and>
   processed_count (run photo_os after_one (init ''/d'') text_folder) = 1 \<and>
   outcome (run photo_os after_one (init ''/d'') text_folder) = Cancelled \<and>
   handled_names (events (run photo_os after_one (init ''/d'') text_folder)) = take 1 [''a.txt'', ''b.txt'', ''c.txt''] \<and>
   finished_count (events (run photo_os after_one (init ''/d'') text_folder)) = 1"
proof -
  have h1: "listdir photo_os text_folder (folder (init ''/d'')) = Inr [''a.txt'', ''b.txt'', ''c.txt'']"
    by code_simp
  have h2: "[''a.txt'', ''b.txt'', ''c.txt''] =
     filter (\<lambda>f. isfile photo_os text_folder (join (folder (init ''/d'')) f)) [''a.txt'', ''b.txt'', ''c.txt'']"
    by code_simp
  have h3: "1 < length [''a.txt'', ''b.txt'', ''c.txt'']" by simp
  have h4: "is_running (init ''/d'')" by (simp add: init_def)
  have h5: "\<forall>i<1. \<not> after_one i" by (simp add: after_one_def)
  have h6: "after_one 1" by (simp add: after_one_def)
  have h8: "loop_ending (loop photo_os (\<lambda>i. False) (determine_mode [''a.txt'', ''b.txt'', ''c.txt''])
      (length [''a.txt'', ''b.txt'', ''c.txt'']) (init ''/d'') text_folder 0
      (take 1 [''a.txt'', ''b.txt'', ''c.txt''])) = Exhausted"
    by code_simp
  have h5': "\<not> after_one 0" by (simp add: after_one_def)
  from cancel_after_k[OF h1 h2 h3 h4 h5 h6 refl h8] h1 h2 h3 h4 h5' h6 h8
  show ?thesis by blast
qed

text \<open>
  C8 as the claim states it says that exactly \<open>k\<close> files are moved. With three files,
  \<open>stop\<close> called after the first, and a first file whose move fails, one file has been
  processed and none moved.
\<close>

theorem cancel_counterexample:
  "outcome (run locked_os after_one (init ''/d'') text_folder) = Cancelled \<and>
   processed_count (run locked_os after_one (init ''/d'') text_folder) = 1 \<and>
   moved_names (events (run locked_os after_one (init ''/d'') text_folder)) = [] \<and>
   failed_names (events (run locked_os after_one (init ''/d'') text_folder)) = [''a.txt'']"
  by code_simp

text \<open>
  C9. In a folder whose listing holds no regular file, the run emits the notice of
  line 48 and the completion signal, processes nothing and leaves the world as it is.
\<close>

theorem organized_folder_zero_files:
  assumes "listdir os w (folder wk) = Inr names"
    and "\<forall>n \<in> set names. \<not> isfile os w (join (folder wk) n)"
  shows "run os sc wk w =
     \<lparr>events = [Log NoFiles, Finished], world = w, processed_count = 0, outcome = ZeroFiles\<rparr> \<and>
     handled_names (events (run os sc wk w)) = [] \<and>
     progress_values (events (run os sc wk w)) = []"
  using run_zero[OF assms] by simp

text \<open>
  The statement at the folder that a first run has organized: the second run finds the
  folder \<open>txt\<close> only.
\<close>

theorem organized_folder_witness:
  "listdir photo_os (world (run photo_os never (init ''/d'') text_folder)) (folder (init ''/d'')) = Inr [''txt''] \<and>
   \<not> isfile photo_os (world (run photo_os never (init ''/d'') text_folder))
       (join (folder (init ''/d'')) ''txt'') \<and>
   run photo_os never (init ''/d'') (world (run photo_os never (init ''/d'') text_folder)) =
     \<lparr>events = [Log NoFiles, Finished], world = world (run photo_os never (init ''/d'') text_folder),
      processed_count = 0, outcome = ZeroFiles\<rparr>"
proof -
  have h1: "listdir photo_os (world (run photo_os never (init ''/d'') text_folder)) (folder (init ''/d'')) = Inr [''txt'']"
    by code_simp
  have h2: "\<forall>n \<in> set [''txt''].
      \<not> isfile photo_os (world (run photo_os never (init ''/d'') text_folder)) (join (folder (init ''/d'')) n)"
    by code_simp
  have h2': "\<not> isfile photo_os (world (run photo_os never (init ''/d'') text_folder))
       (join (folder (init ''/d'')) ''txt'')"
    using h2 by simp
  from organized_folder_zero_files[OF h1 h2, of never] h1 h2' show ?thesis by blast
qed

text \<open>
  C10. When the EXIF data hold a string under the capture-date tag, the year is the text
  of that string before its first colon, whatever that text is: nothing checks that it
  is four digits, nothing is raised, and the modification time is not read. The
  destination folder carries that text.
\<close>

theorem get_image_year_raw_prefix:
  assumes "open_exif os w (join dir f) = Opened (Some items)"
    and "map_of items 0x9003 = Some (StrValue v)"
  shows "get_image_year os w (join dir f) = Inr (takeWhile (\<lambda>c. c \<noteq> CHR '':'') v) \<and>
         destination os w dir Photo f = Inr (photos_label @ '' '' @ takeWhile (\<lambda>c. c \<noteq> CHR '':'') v)"
  using assms by (simp add: destination_def get_image_year_eq)

text \<open>
  The statement at \<open>d.jpg\<close>, whose capture date is written with dashes: the year is
  \<open>2020-03-01 10\<close>.
\<close>

theorem raw_prefix_witness:
  "open_exif photo_os photo_folder (join ''/d'' ''d.jpg'') = Opened (Some [(0x9003, StrValue ''2020-03-01 10:00:00'')]) \<and>
   map_of [(0x9003, StrValue ''2020-03-01 10:00:00'')] (0x9003::int) = Some (StrValue ''2020-03-01 10:00:00'') \<and>
   get_image_year photo_os photo_folder (join ''/d'' ''d.jpg'') = Inr ''2020-03-01 10'' \<and>
   destination photo_os photo_folder ''/d'' Photo ''d.jpg'' = Inr (photos_label @ '' '' @ ''2020-03-01 10'')"
proof -
  have h1: "open_exif photo_os photo_folder (join ''/d'' ''d.jpg'') = Opened (Some [(0x9003, StrValue ''2020-03-01 10:00:00'')])"
    by code_simp
  have h2: "map_of [(0x9003, StrValue ''2020-03-01 10:00:00'')] (0x9003::int) = Some (StrValue ''2020-03-01 10:00:00'')"
    by simp
  have t: "takeWhile (\<lambda>c. c \<noteq> CHR '':'') ''2020-03-01 10:00:00'' = ''2020-03-01 10''" by simp
  from get_image_year_raw_prefix[OF h1 h2] h1 h2 t show ?thesis by simp
qed

end
